theory Spec2Isabelle
  imports Main "HOL-Library.AList" "HOL-Library.Sublist"
begin

section \<open>The node of the prefix tree\<close>

text \<open>Modelled from the spec: the class \<^verbatim>\<open>PrefixTreeNode\<close> of the module
  \<^verbatim>\<open>prefixtreenode\<close>, which \<^verbatim>\<open>prefixtree.py\<close> imports. A node has a character, a terminal
  flag and a dictionary \<^verbatim>\<open>children\<close> from characters to nodes. Every node is owned by its
  parent alone, so the object graph is a tree and a node is a value of a recursive datatype.
  The dictionary is an association list in insertion order, the order in which
  \<^verbatim>\<open>children.items()\<close> yields it. The root carries the start character \<^verbatim>\<open>''\<close>, so the
  character field is a string.\<close>

datatype node = Node (character: string) (terminal: bool) (children: "(char \<times> node) list")

text \<open>
  What a call can raise: the lookup failure of \<^verbatim>\<open>get_child\<close>, the rejection of
  \<^verbatim>\<open>add_child\<close>, and the interpreter's \<^verbatim>\<open>RecursionError\<close>, raised when a call would nest
  deeper than the recursion limit allows.
\<close>

datatype error = LookupError char | ChildExists char | RecursionError

text \<open>Modelled from the spec: the constructor \<^verbatim>\<open>PrefixTreeNode(character)\<close>, a node that
  is not terminal and has no children.\<close>

definition PrefixTreeNode :: "string \<Rightarrow> node" where
  "PrefixTreeNode c = Node c False []"

text \<open>Modelled from the spec: \<^verbatim>\<open>is_terminal()\<close> returns the terminal flag.\<close>

definition is_terminal :: "node \<Rightarrow> bool" where
  "is_terminal n = terminal n"

text \<open>Modelled from the spec: \<^verbatim>\<open>has_child(c)\<close> is true iff \<^verbatim>\<open>c\<close> is a key in
  \<^verbatim>\<open>children\<close>.\<close>

definition has_child :: "node \<Rightarrow> char \<Rightarrow> bool" where
  "has_child n c = (map_of (children n) c \<noteq> None)"

text \<open>Modelled from the spec: \<^verbatim>\<open>get_child(c)\<close> returns the child for \<^verbatim>\<open>c\<close> and fails
  with a lookup error when there is none.\<close>

definition get_child :: "node \<Rightarrow> char \<Rightarrow> error + node" where
  "get_child n c = (case map_of (children n) c of
                      None \<Rightarrow> Inl (LookupError c)
                    | Some child \<Rightarrow> Inr child)"

text \<open>Modelled from the spec: \<^verbatim>\<open>add_child(c, node)\<close> inserts the node as the child for the
  key \<^verbatim>\<open>c\<close>; a key that already has a child is rejected rather than overwritten.\<close>

definition add_child :: "node \<Rightarrow> char \<Rightarrow> node \<Rightarrow> error + node" where
  "add_child n c child =
     (if map_of (children n) c \<noteq> None then Inl (ChildExists c)
      else Inr (Node (character n) (terminal n) (AList.update c child (children n))))"

text \<open>
  The tree code keeps a reference to a child and mutates the child afterwards; the parent's
  dictionary then shows the mutated child under the same key. In the value model this is the
  write of the new child value back under its key, which keeps the key's position.
\<close>

definition set_child :: "node \<Rightarrow> char \<Rightarrow> node \<Rightarrow> node" where
  "set_child n c child = Node (character n) (terminal n) (AList.update c child (children n))"

definition set_terminal :: "node \<Rightarrow> bool \<Rightarrow> node" where
  "set_terminal n b = Node (character n) b (children n)"


section \<open>The prefix tree\<close>

record tree =
  root :: node
  size_tree :: int

definition START_CHARACTER :: string where
  "START_CHARACTER = []"

definition is_empty :: "tree \<Rightarrow> bool" where
  "is_empty t = (if size_tree t = 0 then True else False)"

text \<open>The loop of \<^verbatim>\<open>_find_node\<close>, with the current node and the depth as loop state.\<close>

fun find_node_loop :: "node \<Rightarrow> nat \<Rightarrow> string \<Rightarrow> error + (node \<times> nat)" where
  "find_node_loop n depth [] = Inr (n, depth)"
| "find_node_loop n depth (c # cs) =
     (if has_child n c then
        (case get_child n c of
           Inl e \<Rightarrow> Inl e
         | Inr child \<Rightarrow> find_node_loop child (depth + 1) cs)
      else Inr (n, depth))"

definition find_node :: "tree \<Rightarrow> string \<Rightarrow> error + (node \<times> nat)" where
  "find_node t s = (if length s = 0 then Inr (root t, 0) else find_node_loop (root t) 0 s)"

definition contains :: "tree \<Rightarrow> string \<Rightarrow> error + bool" where
  "contains t s =
     (case find_node t s of
        Inl e \<Rightarrow> Inl e
      | Inr (n, depth) \<Rightarrow> Inr (if depth = length s \<and> is_terminal n then True else False))"

text \<open>
  The loop of \<^verbatim>\<open>insert\<close> followed by the assignment \<^verbatim>\<open>node.terminal = True\<close>. The result
  is the node the loop started from, as it is after every mutation below it.
\<close>

fun insert_loop :: "node \<Rightarrow> string \<Rightarrow> error + node" where
  "insert_loop n [] = Inr (set_terminal n True)"
| "insert_loop n (c # cs) =
     (if has_child n c then
        (case get_child n c of
           Inl e \<Rightarrow> Inl e
         | Inr child \<Rightarrow>
             (case insert_loop child cs of
                Inl e \<Rightarrow> Inl e
              | Inr child' \<Rightarrow> Inr (set_child n c child')))
      else
        (case add_child n c (PrefixTreeNode [c]) of
           Inl e \<Rightarrow> Inl e
         | Inr n' \<Rightarrow>
             (case insert_loop (PrefixTreeNode [c]) cs of
                Inl e \<Rightarrow> Inl e
              | Inr child' \<Rightarrow> Inr (set_child n' c child'))))"

definition insert_tree :: "tree \<Rightarrow> string \<Rightarrow> error + tree" where
  "insert_tree t s =
     (case contains t s of
        Inl e \<Rightarrow> Inl e
      | Inr already_exists \<Rightarrow>
          (case insert_loop (root t) s of
             Inl e \<Rightarrow> Inl e
           | Inr r \<Rightarrow>
               Inr (if \<not> already_exists then \<lparr>root = r, size_tree = size_tree t + 1\<rparr>
                    else \<lparr>root = r, size_tree = size_tree t\<rparr>)))"

text \<open>The constructor: an empty tree, then the given strings inserted in order.\<close>

fun insert_all :: "tree \<Rightarrow> string list \<Rightarrow> error + tree" where
  "insert_all t [] = Inr t"
| "insert_all t (s # ss) =
     (case insert_tree t s of Inl e \<Rightarrow> Inl e | Inr t' \<Rightarrow> insert_all t' ss)"

definition PrefixTree :: "string list option \<Rightarrow> error + tree" where
  "PrefixTree strings =
     (case strings of
        None \<Rightarrow> Inr \<lparr>root = PrefixTreeNode START_CHARACTER, size_tree = 0\<rparr>
      | Some ss \<Rightarrow> insert_all \<lparr>root = PrefixTreeNode START_CHARACTER, size_tree = 0\<rparr> ss)"

text \<open>
  \<^verbatim>\<open>_traverse\<close> calls itself once for every character on a path below the node it starts
  from, and every call of a Python function takes a frame of the interpreter's stack. The
  interpreter refuses the call that would go beyond its recursion limit and raises
  \<^verbatim>\<open>RecursionError\<close>. The limit belongs to the interpreter, not to the repository; its
  default is 1000, so no call ever has more frames than that below it.
\<close>

definition recursion_limit :: nat where
  "recursion_limit = 1000"

text \<open>
  The loop over \<^verbatim>\<open>node.children.items()\<close>: the body runs for every entry in order, and an
  exception raised in the body ends the loop and is the result.
\<close>

fun fold_result :: "('x \<Rightarrow> 'a \<Rightarrow> error + 'a) \<Rightarrow> 'x list \<Rightarrow> 'a \<Rightarrow> error + 'a" where
  "fold_result f [] acc = Inr acc"
| "fold_result f (x # xs) acc =
     (case f x acc of Inl e \<Rightarrow> Inl e | Inr acc' \<Rightarrow> fold_result f xs acc')"

text \<open>
  \<^verbatim>\<open>_traverse\<close> calls the sink \<^verbatim>\<open>visit\<close> for its effect; the sink's state is threaded
  through the traversal. The first argument is the number of frames the interpreter has
  left when \<^verbatim>\<open>_traverse\<close> is called: with none left the call itself is refused; the call
  takes one, and the call of the method \<^verbatim>\<open>is_terminal\<close> and the recursive calls need one
  more each below it. The sink is the built-in \<^verbatim>\<open>list.append\<close>, which takes no frame.
\<close>

fun traverse :: "nat \<Rightarrow> node \<Rightarrow> string \<Rightarrow> (string \<Rightarrow> 'a \<Rightarrow> 'a) \<Rightarrow> 'a \<Rightarrow> error + 'a" where
  "traverse 0 n pfx visit acc = Inl RecursionError"
| "traverse (Suc frames) n pfx visit acc =
     (if frames = 0 then Inl RecursionError
      else fold_result (\<lambda>(c, child) acc'. traverse frames child (pfx @ [c]) visit acc')
             (children n) (if is_terminal n then visit pfx acc else acc))"

definition append_list :: "string \<Rightarrow> string list \<Rightarrow> string list" where
  "append_list s xs = xs @ [s]"

text \<open>
  \<^verbatim>\<open>complete\<close> and \<^verbatim>\<open>strings\<close> take the number of frames the interpreter has left at their
  call of \<^verbatim>\<open>_traverse\<close>. (The other methods nest two calls at most, whatever their input:
  a loop, and an accessor of the node called from it.)
\<close>

definition complete :: "nat \<Rightarrow> tree \<Rightarrow> string \<Rightarrow> error + string list" where
  "complete frames t pfx =
     (case find_node t pfx of
        Inl e \<Rightarrow> Inl e
      | Inr (n, depth) \<Rightarrow>
          (if depth = length pfx then traverse frames n pfx append_list [] else Inr []))"

definition strings :: "nat \<Rightarrow> tree \<Rightarrow> error + string list" where
  "strings frames t = traverse frames (root t) [] append_list []"


section \<open>Method calls with the receiver threaded through\<close>

text \<open>
  The query methods again, as calls on the tree object: every call takes the tree and returns
  its result together with the tree as the call leaves it. The methods of the tree are the
  source's statements in order, the tree handed from one call to the next.
\<close>

text \<open>Modelled from the spec: the accessors of the node class only read. \<^verbatim>\<open>has_child\<close> has
  no side effects, \<^verbatim>\<open>get_child\<close> returns the child (or fails), \<^verbatim>\<open>is_terminal\<close> returns the
  flag; each leaves the tree as it was.\<close>

definition has_child_st :: "node \<Rightarrow> char \<Rightarrow> tree \<Rightarrow> bool \<times> tree" where
  "has_child_st n c t = (has_child n c, t)"

definition get_child_st :: "node \<Rightarrow> char \<Rightarrow> tree \<Rightarrow> (error + node) \<times> tree" where
  "get_child_st n c t = (get_child n c, t)"

definition is_terminal_st :: "node \<Rightarrow> tree \<Rightarrow> bool \<times> tree" where
  "is_terminal_st n t = (is_terminal n, t)"

fun find_node_loop_st :: "node \<Rightarrow> nat \<Rightarrow> string \<Rightarrow> tree \<Rightarrow> (error + (node \<times> nat)) \<times> tree" where
  "find_node_loop_st n depth [] t = (Inr (n, depth), t)"
| "find_node_loop_st n depth (c # cs) t =
     (case has_child_st n c t of
        (True, t1) \<Rightarrow>
          (case get_child_st n c t1 of
             (Inl e, t2) \<Rightarrow> (Inl e, t2)
           | (Inr child, t2) \<Rightarrow> find_node_loop_st child (depth + 1) cs t2)
      | (False, t1) \<Rightarrow> (Inr (n, depth), t1))"

definition find_node_st :: "string \<Rightarrow> tree \<Rightarrow> (error + (node \<times> nat)) \<times> tree" where
  "find_node_st s t =
     (if length s = 0 then (Inr (root t, 0), t) else find_node_loop_st (root t) 0 s t)"

definition contains_st :: "string \<Rightarrow> tree \<Rightarrow> (error + bool) \<times> tree" where
  "contains_st s t =
     (case find_node_st s t of
        (Inl e, t1) \<Rightarrow> (Inl e, t1)
      | (Inr (n, depth), t1) \<Rightarrow>
          (if depth = length s then
             (case is_terminal_st n t1 of
                (True, t2) \<Rightarrow> (Inr True, t2)
              | (False, t2) \<Rightarrow> (Inr False, t2))
           else (Inr False, t1)))"

fun fold_result_st ::
  "('x \<Rightarrow> 'a \<times> tree \<Rightarrow> (error + 'a) \<times> tree) \<Rightarrow> 'x list \<Rightarrow> 'a \<times> tree \<Rightarrow> (error + 'a) \<times> tree" where
  "fold_result_st f [] (acc, t) = (Inr acc, t)"
| "fold_result_st f (x # xs) (acc, t) =
     (case f x (acc, t) of
        (Inl e, t1) \<Rightarrow> (Inl e, t1)
      | (Inr acc', t1) \<Rightarrow> fold_result_st f xs (acc', t1))"

fun traverse_st ::
  "nat \<Rightarrow> node \<Rightarrow> string \<Rightarrow> (string \<Rightarrow> 'a \<Rightarrow> 'a) \<Rightarrow> 'a \<times> tree \<Rightarrow> (error + 'a) \<times> tree" where
  "traverse_st 0 n pfx visit (acc, t) = (Inl RecursionError, t)"
| "traverse_st (Suc frames) n pfx visit (acc, t) =
     (if frames = 0 then (Inl RecursionError, t)
      else
        (case is_terminal_st n t of
           (True, t1) \<Rightarrow>
             fold_result_st (\<lambda>(c, child) st. traverse_st frames child (pfx @ [c]) visit st)
               (children n) (visit pfx acc, t1)
         | (False, t1) \<Rightarrow>
             fold_result_st (\<lambda>(c, child) st. traverse_st frames child (pfx @ [c]) visit st)
               (children n) (acc, t1)))"

definition complete_st :: "nat \<Rightarrow> string \<Rightarrow> tree \<Rightarrow> (error + string list) \<times> tree" where
  "complete_st frames pfx t =
     (case find_node_st pfx t of
        (Inl e, t1) \<Rightarrow> (Inl e, t1)
      | (Inr (n, depth), t1) \<Rightarrow>
          (if depth = length pfx then traverse_st frames n pfx append_list ([], t1)
           else (Inr [], t1)))"

definition strings_st :: "nat \<Rightarrow> tree \<Rightarrow> (error + string list) \<times> tree" where
  "strings_st frames t = traverse_st frames (root t) [] append_list ([], t)"

definition is_empty_st :: "tree \<Rightarrow> bool \<times> tree" where
  "is_empty_st t = (if size_tree t = 0 then (True, t) else (False, t))"


section \<open>Notions of the specification\<close>

text \<open>
  The specification speaks of a full character-by-character path from the root and of the node
  it reaches. \<open>walk n s\<close> follows the child edges for the characters of \<open>s\<close> from \<open>n\<close>: it is
  the node reached, or \<open>None\<close> when some character has no matching edge. A string is stored
  below a node when its path exists and ends in a terminal node.
\<close>

fun walk :: "node \<Rightarrow> string \<Rightarrow> node option" where
  "walk n [] = Some n"
| "walk n (c # cs) = (case map_of (children n) c of None \<Rightarrow> None | Some child \<Rightarrow> walk child cs)"

definition stored :: "node \<Rightarrow> string \<Rightarrow> bool" where
  "stored n s = (case walk n s of None \<Rightarrow> False | Some m \<Rightarrow> terminal m)"

text \<open>
  A dictionary has every key once. For the association lists that stand for the children
  dictionaries this is an invariant of the representation: the keys of every node are distinct.
\<close>

fun wf_node :: "node \<Rightarrow> bool" where
  "wf_node (Node ch tm cs) = (distinct (map fst cs) \<and> (\<forall>(c, child) \<in> set cs. wf_node child))"

text \<open>
  The stored strings below a node in depth-first order, each with the path \<open>p\<close> to the node
  in front: the list a traversal that is not cut short hands to its sink.
\<close>

fun listing :: "node \<Rightarrow> string \<Rightarrow> string list" where
  "listing (Node ch tm cs) p =
     (if tm then [p] else []) @ concat (map (\<lambda>(c, child). listing child (p @ [c])) cs)"

text \<open>
  The number of nested calls a traversal from a node makes: the call for the node, and
  below it the deeper of the call of \<^verbatim>\<open>is_terminal\<close> and the traversals of the children.
\<close>

fun frames_needed :: "node \<Rightarrow> nat" where
  "frames_needed (Node ch tm cs) = Suc (fold max (map (\<lambda>(c, child). frames_needed child) cs) 1)"

section \<open>The sample of the demonstration\<close>

text \<open>
  \<^verbatim>\<open>main()\<close> runs the demonstration on the strings ABC, ABD, A and XYZ. The tree that
  inserting them in this order builds is written out here.
\<close>

definition sample_strings :: "string list" where
  "sample_strings = [''ABC'', ''ABD'', ''A'', ''XYZ'']"

definition sample_tree :: tree where
  "sample_tree =
     \<lparr>root = Node [] False
        [(CHR ''A'', Node ''A'' True
           [(CHR ''B'', Node ''B'' False
              [(CHR ''C'', Node ''C'' True []), (CHR ''D'', Node ''D'' True [])])]),
         (CHR ''X'', Node ''X'' False
           [(CHR ''Y'', Node ''Y'' False [(CHR ''Z'', Node ''Z'' True [])])])],
      size_tree = 4\<rparr>"


text \<open>
  A tree that holds the empty string and a string of 1000 characters, as the constructor
  builds it.
\<close>

definition deep_strings :: "string list" where
  "deep_strings = [[], replicate 1000 (CHR ''a'')]"

definition deep_tree :: tree where
  "deep_tree =
     (case PrefixTree (Some deep_strings) of
        Inr t \<Rightarrow> t
      | Inl e \<Rightarrow> \<lparr>root = PrefixTreeNode START_CHARACTER, size_tree = 0\<rparr>)"


section \<open>Supporting lemmas\<close>

declare listing.simps [simp del]

lemmas listing_Node = listing.simps

lemma find_node_loop_walk:
  "\<exists>m k. find_node_loop n d s = Inr (m, d + k) \<and> k \<le> length s \<and> walk n (take k s) = Some m
     \<and> (k = length s \<longleftrightarrow> walk n s \<noteq> None)"
proof (induction s arbitrary: n d)
  case Nil
  show ?case by simp
next
  case (Cons c cs)
  show ?case
  proof (cases "map_of (children n) c")
    case None
    then show ?thesis by (simp add: has_child_def)
  next
    case (Some child)
    from Cons.IH [of child "d + 1"] obtain m k where
      h: "find_node_loop child (d + 1) cs = Inr (m, d + 1 + k)" "k \<le> length cs"
         "walk child (take k cs) = Some m" "(k = length cs) = (walk child cs \<noteq> None)"
      by blast
    show ?thesis
      apply (rule exI [of _ m], rule exI [of _ "Suc k"])
      using h Some by (simp add: has_child_def get_child_def)
  qed
qed

lemma find_node_walk:
  "\<exists>m k. find_node t s = Inr (m, k) \<and> k \<le> length s \<and> walk (root t) (take k s) = Some m
     \<and> (k = length s \<longleftrightarrow> walk (root t) s \<noteq> None)"
proof (cases s)
  case Nil
  then show ?thesis by (simp add: find_node_def)
next
  case (Cons c cs)
  from find_node_loop_walk [of "root t" 0 s] show ?thesis
    using Cons by (simp add: find_node_def)
qed

lemma contains_stored: "contains t s = Inr (stored (root t) s)"
proof -
  from find_node_walk [of t s] obtain m k where
    h: "find_node t s = Inr (m, k)" "k \<le> length s" "walk (root t) (take k s) = Some m"
       "(k = length s) = (walk (root t) s \<noteq> None)" by blast
  show ?thesis
  proof (cases "k = length s")
    case True
    with h show ?thesis by (simp add: contains_def stored_def is_terminal_def)
  next
    case False
    with h show ?thesis by (auto simp add: contains_def stored_def is_terminal_def)
  qed
qed

lemma insert_loop_total: "\<exists>n'. insert_loop n s = Inr n'"
proof (induction s arbitrary: n)
  case Nil
  show ?case by simp
next
  case (Cons c cs)
  show ?case
  proof (cases "map_of (children n) c")
    case None
    from Cons.IH [of "PrefixTreeNode [c]"] obtain ch where "insert_loop (PrefixTreeNode [c]) cs = Inr ch" by blast
    with None show ?thesis by (simp add: has_child_def add_child_def)
  next
    case (Some child)
    from Cons.IH [of child] obtain ch where "insert_loop child cs = Inr ch" by blast
    with Some show ?thesis by (simp add: has_child_def get_child_def)
  qed
qed

lemma stored_Nil [simp]: "stored n [] = terminal n"
  by (simp add: stored_def)

lemma stored_Cons: "stored n (c # cs) = (case map_of (children n) c of None \<Rightarrow> False | Some child \<Rightarrow> stored child cs)"
  by (simp add: stored_def split: option.splits)

lemma stored_fresh [simp]: "stored (PrefixTreeNode ch) x = False"
  by (cases x) (simp_all add: stored_Cons PrefixTreeNode_def)

lemma insert_loop_stored:
  "insert_loop n s = Inr n' \<Longrightarrow> stored n' x = (x = s \<or> stored n x)"
proof (induction s arbitrary: n n' x)
  case Nil
  then show ?case by (cases x) (auto simp add: set_terminal_def stored_Cons)
next
  case (Cons c cs)
  show ?case
  proof (cases "map_of (children n) c")
    case None
    from insert_loop_total [of "PrefixTreeNode [c]" cs] obtain ch where
      ch: "insert_loop (PrefixTreeNode [c]) cs = Inr ch" by blast
    with None Cons.prems have n': "n' = Node (character n) (terminal n) (AList.update c ch (children n))"
      by (simp add: has_child_def add_child_def set_child_def)
    show ?thesis
    proof (cases x)
      case Nil
      then show ?thesis by (simp add: n')
    next
      case (Cons d ds)
      with Cons.IH [OF ch, of ds] None show ?thesis
        by (simp add: n' stored_Cons update_conv')
    qed
  next
    case (Some child)
    from insert_loop_total [of child cs] obtain ch where
      ch: "insert_loop child cs = Inr ch" by blast
    with Some Cons.prems have n': "n' = Node (character n) (terminal n) (AList.update c ch (children n))"
      by (simp add: has_child_def get_child_def set_child_def)
    show ?thesis
    proof (cases x)
      case Nil
      then show ?thesis by (simp add: n')
    next
      case (Cons d ds)
      with Cons.IH [OF ch, of ds] Some show ?thesis
        by (simp add: n' stored_Cons update_conv')
    qed
  qed
qed

lemma node_induct [case_names Node]:
  assumes "\<And>ch tm cs. (\<And>c child. (c, child) \<in> set cs \<Longrightarrow> P child) \<Longrightarrow> P (Node ch tm cs)"
  shows "P n"
proof (induction n)
  case (Node ch tm cs)
  show ?case
  proof (rule assms)
    fix c child assume h: "(c, child) \<in> set cs"
    have "child \<in> Basic_BNFs.snds (c, child)" by simp
    from Node.IH [OF h this] show "P child" .
  qed
qed

lemma listing_prefix: "y \<in> set (listing n p) \<Longrightarrow> prefix p y"
proof (induction n arbitrary: p y rule: node_induct)
  case (Node ch tm cs)
  from Node.prems have "y = p \<or> (\<exists>c child. (c, child) \<in> set cs \<and> y \<in> set (listing child (p @ [c])))"
    by (auto simp add: listing_Node split: if_splits)
  then show ?case
  proof
    assume "y = p" then show ?thesis by simp
  next
    assume "\<exists>c child. (c, child) \<in> set cs \<and> y \<in> set (listing child (p @ [c]))"
    then obtain c child where h: "(c, child) \<in> set cs" "y \<in> set (listing child (p @ [c]))" by blast
    from Node.IH [OF h] have "prefix (p @ [c]) y" .
    then show ?thesis using append_prefixD by blast
  qed
qed

lemma prefix_snoc_same: "prefix (p @ [c]) y \<Longrightarrow> prefix (p @ [d]) y \<Longrightarrow> c = d"
  by (auto simp add: prefix_def)

lemma listing_stored:
  "wf_node n \<Longrightarrow> (y \<in> set (listing n p)) = (\<exists>x. y = p @ x \<and> stored n x)"
proof (induction n arbitrary: p y rule: node_induct)
  case (Node ch tm cs)
  from Node.prems have d: "distinct (map fst cs)" and w: "\<And>c child. (c, child) \<in> set cs \<Longrightarrow> wf_node child"
    by auto
  have ih: "\<And>c child y. (c, child) \<in> set cs \<Longrightarrow>
      (y \<in> set (listing child (p @ [c]))) = (\<exists>x. y = p @ c # x \<and> stored child x)"
    using Node.IH [OF _ w] by simp
  have "(y \<in> set (listing (Node ch tm cs) p)) =
        ((tm \<and> y = p) \<or> (\<exists>c child. (c, child) \<in> set cs \<and> y \<in> set (listing child (p @ [c]))))"
    by (auto simp add: listing_Node)
  also have "\<dots> = ((tm \<and> y = p) \<or> (\<exists>c child x. (c, child) \<in> set cs \<and> y = p @ c # x \<and> stored child x))"
    using ih by blast
  also have "\<dots> = (\<exists>x. y = p @ x \<and> stored (Node ch tm cs) x)"
  proof
    assume "(tm \<and> y = p) \<or> (\<exists>c child x. (c, child) \<in> set cs \<and> y = p @ c # x \<and> stored child x)"
    then show "\<exists>x. y = p @ x \<and> stored (Node ch tm cs) x"
    proof
      assume "tm \<and> y = p"
      then have "y = p @ [] \<and> stored (Node ch tm cs) []" by simp
      then show ?thesis by blast
    next
      assume "\<exists>c child x. (c, child) \<in> set cs \<and> y = p @ c # x \<and> stored child x"
      then obtain c child x where h: "(c, child) \<in> set cs" "y = p @ c # x" "stored child x" by blast
      from h(1) d have "map_of cs c = Some child" by simp
      with h have "y = p @ (c # x) \<and> stored (Node ch tm cs) (c # x)" by (simp add: stored_Cons)
      then show ?thesis by blast
    qed
  next
    assume "\<exists>x. y = p @ x \<and> stored (Node ch tm cs) x"
    then obtain x where h: "y = p @ x" "stored (Node ch tm cs) x" by blast
    show "(tm \<and> y = p) \<or> (\<exists>c child x. (c, child) \<in> set cs \<and> y = p @ c # x \<and> stored child x)"
    proof (cases x)
      case Nil
      with h show ?thesis by simp
    next
      case (Cons c x')
      with h(2) obtain child where c: "map_of cs c = Some child" "stored child x'"
        by (auto simp add: stored_Cons split: option.splits)
      from c(1) have "(c, child) \<in> set cs" by (rule map_of_SomeD)
      with c h(1) Cons show ?thesis by blast
    qed
  qed
  finally show ?case .
qed

lemma distinct_concat_keys:
  assumes "distinct (map fst cs)"
    and "\<And>c ch. (c, ch) \<in> set cs \<Longrightarrow> distinct (g (c, ch))"
    and "\<And>c ch y. (c, ch) \<in> set cs \<Longrightarrow> y \<in> set (g (c, ch)) \<Longrightarrow> prefix (p @ [c]) y"
  shows "distinct (concat (map g cs))"
  using assms
proof (induction cs)
  case Nil
  show ?case by simp
next
  case (Cons x xs)
  obtain c ch where x: "x = (c, ch)" by (cases x)
  have 1: "distinct (g x)" using Cons.prems(2) [of c ch] x by simp
  have 2: "distinct (concat (map g xs))"
  proof (rule Cons.IH)
    show "distinct (map fst xs)" using Cons.prems(1) by simp
  next
    fix c ch assume "(c, ch) \<in> set xs"
    then show "distinct (g (c, ch))" using Cons.prems(2) [of c ch] by simp
  next
    fix c ch y assume "(c, ch) \<in> set xs" "y \<in> set (g (c, ch))"
    then show "prefix (p @ [c]) y" using Cons.prems(3) [of c ch y] by simp
  qed
  have 3: "set (g x) \<inter> set (concat (map g xs)) = {}"
  proof (rule ccontr)
    assume "set (g x) \<inter> set (concat (map g xs)) \<noteq> {}"
    then obtain y d ch' where y: "y \<in> set (g x)" "(d, ch') \<in> set xs" "y \<in> set (g (d, ch'))" by auto
    have "prefix (p @ [c]) y" using Cons.prems(3) [of c ch y] y(1) x by simp
    moreover have "prefix (p @ [d]) y" using Cons.prems(3) [of d ch' y] y by simp
    ultimately have "c = d" by (rule prefix_snoc_same)
    moreover have "c \<notin> fst ` set xs" using Cons.prems(1) x by simp
    ultimately show False using y(2) by force
  qed
  show ?case using 1 2 3 by simp
qed

lemma listing_distinct: "wf_node n \<Longrightarrow> distinct (listing n p)"
proof (induction n arbitrary: p rule: node_induct)
  case (Node ch tm cs)
  from Node.prems have d: "distinct (map fst cs)" and w: "\<And>c child. (c, child) \<in> set cs \<Longrightarrow> wf_node child"
    by auto
  have a: "distinct (concat (map (\<lambda>(c, child). listing child (p @ [c])) cs))"
    by (rule distinct_concat_keys [where p = p, OF d]) (auto intro: Node.IH w listing_prefix)
  have b: "p \<notin> set (concat (map (\<lambda>(c, child). listing child (p @ [c])) cs))"
  proof
    assume "p \<in> set (concat (map (\<lambda>(c, child). listing child (p @ [c])) cs))"
    then obtain c child where "(c, child) \<in> set cs" "p \<in> set (listing child (p @ [c]))" by auto
    then have "prefix (p @ [c]) p" using listing_prefix by blast
    then show False by (simp add: prefix_def)
  qed
  show ?case using a b by (simp add: listing_Node)
qed

lemma insert_loop_Cons:
  "\<exists>ch. insert_loop (case map_of (children n) c of None \<Rightarrow> PrefixTreeNode [c] | Some x \<Rightarrow> x) cs = Inr ch
       \<and> insert_loop n (c # cs) = Inr (Node (character n) (terminal n) (AList.update c ch (children n)))"
proof (cases "map_of (children n) c")
  case None
  from insert_loop_total [of "PrefixTreeNode [c]" cs] obtain ch where
    ch: "insert_loop (PrefixTreeNode [c]) cs = Inr ch" by blast
  with None show ?thesis by (simp add: has_child_def add_child_def set_child_def)
next
  case (Some child)
  from insert_loop_total [of child cs] obtain ch where
    ch: "insert_loop child cs = Inr ch" by blast
  with Some show ?thesis by (simp add: has_child_def get_child_def set_child_def)
qed

lemma set_update_cases:
  "(k, v) \<in> set (AList.update c ch al) \<Longrightarrow> (k, v) = (c, ch) \<or> (k, v) \<in> set al"
  by (induction al) (auto split: if_splits)

lemma wf_fresh [simp]: "wf_node (PrefixTreeNode ch)"
  by (simp add: PrefixTreeNode_def)

lemma wf_node_iff:
  "wf_node n = (distinct (map fst (children n)) \<and> (\<forall>(c, child) \<in> set (children n). wf_node child))"
  by (cases n) simp

lemma insert_loop_wf: "insert_loop n s = Inr n' \<Longrightarrow> wf_node n \<Longrightarrow> wf_node n'"
proof (induction s arbitrary: n n')
  case Nil
  then show ?case by (cases n) (auto simp add: set_terminal_def)
next
  case (Cons c cs)
  let ?child = "case map_of (children n) c of None \<Rightarrow> PrefixTreeNode [c] | Some x \<Rightarrow> x"
  from insert_loop_Cons [where n = n and c = c and cs = cs] Cons.prems(1) obtain ch where
    ch: "insert_loop ?child cs = Inr ch"
    and n': "n' = Node (character n) (terminal n) (AList.update c ch (children n))" by auto
  have "wf_node ?child"
  proof (cases "map_of (children n) c")
    case None
    then show ?thesis by simp
  next
    case (Some x)
    then have "(c, x) \<in> set (children n)" by (rule map_of_SomeD)
    with Cons.prems(2) Some show ?thesis by (auto simp add: wf_node_iff [of n])
  qed
  with ch have wch: "wf_node ch" by (rule Cons.IH)
  have d: "distinct (map fst (AList.update c ch (children n)))"
    using Cons.prems(2) by (simp add: wf_node_iff [of n] distinct_update)
  have "\<And>k v. (k, v) \<in> set (AList.update c ch (children n)) \<Longrightarrow> wf_node v"
  proof -
    fix k v assume "(k, v) \<in> set (AList.update c ch (children n))"
    then have "(k, v) = (c, ch) \<or> (k, v) \<in> set (children n)" by (rule set_update_cases)
    then show "wf_node v" using wch Cons.prems(2) by (auto simp add: wf_node_iff [of n])
  qed
  with d show ?case by (auto simp add: n')
qed

lemma insert_loop_again: "insert_loop n s = Inr n' \<Longrightarrow> insert_loop n' s = Inr n'"
proof (induction s arbitrary: n n')
  case Nil
  then show ?case by (auto simp add: set_terminal_def)
next
  case (Cons c cs)
  let ?child = "case map_of (children n) c of None \<Rightarrow> PrefixTreeNode [c] | Some x \<Rightarrow> x"
  from insert_loop_Cons [where n = n and c = c and cs = cs] Cons.prems(1) obtain ch where
    ch: "insert_loop ?child cs = Inr ch"
    and n': "n' = Node (character n) (terminal n) (AList.update c ch (children n))" by auto
  from ch have again: "insert_loop ch cs = Inr ch" by (rule Cons.IH)
  have m: "map_of (children n') c = Some ch" by (simp add: n' update_conv')
  from insert_loop_Cons [where n = "n'" and c = c and cs = cs] obtain ch' where
    "insert_loop (case map_of (children n') c of None \<Rightarrow> PrefixTreeNode [c] | Some x \<Rightarrow> x) cs = Inr ch'"
    "insert_loop n' (c # cs) = Inr (Node (character n') (terminal n') (AList.update c ch' (children n')))"
    by blast
  with m again have "insert_loop n' (c # cs) = Inr (Node (character n') (terminal n') (AList.update c ch (children n')))"
    by simp
  then show ?case by (simp add: n')
qed

lemma sorted_concat_keys:
  assumes "distinct (map fst cs)"
    and "\<And>c ch. (c, ch) \<in> set cs \<Longrightarrow> sorted_wrt (\<lambda>a b. \<not> strict_prefix b a) (g (c, ch))"
    and "\<And>c ch y. (c, ch) \<in> set cs \<Longrightarrow> y \<in> set (g (c, ch)) \<Longrightarrow> prefix (p @ [c]) y"
  shows "sorted_wrt (\<lambda>a b. \<not> strict_prefix b a) (concat (map g cs))"
  using assms
proof (induction cs)
  case Nil
  show ?case by simp
next
  case (Cons x xs)
  obtain c ch where x: "x = (c, ch)" by (cases x)
  have 1: "sorted_wrt (\<lambda>a b. \<not> strict_prefix b a) (g x)" using Cons.prems(2) [of c ch] x by simp
  have 2: "sorted_wrt (\<lambda>a b. \<not> strict_prefix b a) (concat (map g xs))"
  proof (rule Cons.IH)
    show "distinct (map fst xs)" using Cons.prems(1) by simp
  next
    fix c ch assume "(c, ch) \<in> set xs"
    then show "sorted_wrt (\<lambda>a b. \<not> strict_prefix b a) (g (c, ch))" using Cons.prems(2) [of c ch] by simp
  next
    fix c ch y assume "(c, ch) \<in> set xs" "y \<in> set (g (c, ch))"
    then show "prefix (p @ [c]) y" using Cons.prems(3) [of c ch y] by simp
  qed
  have 3: "\<forall>a \<in> set (g x). \<forall>b \<in> set (concat (map g xs)). \<not> strict_prefix b a"
  proof (intro ballI notI)
    fix a b assume a: "a \<in> set (g x)" and b: "b \<in> set (concat (map g xs))" and s: "strict_prefix b a"
    from b obtain d ch' where d: "(d, ch') \<in> set xs" "b \<in> set (g (d, ch'))" by auto
    have "prefix (p @ [c]) a" using Cons.prems(3) [of c ch a] a x by simp
    moreover have "prefix (p @ [d]) b" using Cons.prems(3) [of d ch' b] d by simp
    then have "prefix (p @ [d]) a" using s by (meson prefix_order.order_trans strict_prefix_def prefix_order.less_imp_le)
    ultimately have "c = d" by (rule prefix_snoc_same)
    moreover have "c \<notin> fst ` set xs" using Cons.prems(1) x by simp
    ultimately show False using d(1) by force
  qed
  show ?case using 1 2 3 by (simp add: sorted_wrt_append)
qed

lemma listing_sorted: "wf_node n \<Longrightarrow> sorted_wrt (\<lambda>a b. \<not> strict_prefix b a) (listing n p)"
proof (induction n arbitrary: p rule: node_induct)
  case (Node ch tm cs)
  from Node.prems have d: "distinct (map fst cs)" and w: "\<And>c child. (c, child) \<in> set cs \<Longrightarrow> wf_node child"
    by auto
  have a: "sorted_wrt (\<lambda>a b. \<not> strict_prefix b a) (concat (map (\<lambda>(c, child). listing child (p @ [c])) cs))"
    by (rule sorted_concat_keys [where p = p, OF d]) (auto intro: Node.IH w listing_prefix)
  have b: "\<forall>y \<in> set (concat (map (\<lambda>(c, child). listing child (p @ [c])) cs)). \<not> strict_prefix y p"
  proof (intro ballI notI)
    fix y assume "y \<in> set (concat (map (\<lambda>(c, child). listing child (p @ [c])) cs))" and s: "strict_prefix y p"
    then obtain c child where "(c, child) \<in> set cs" "y \<in> set (listing child (p @ [c]))" by auto
    then have "prefix (p @ [c]) y" using listing_prefix by blast
    then have "length p < length y" by (auto simp add: prefix_def)
    moreover from s have "length y < length p" by (auto simp add: strict_prefix_def prefix_def)
    ultimately show False by simp
  qed
  show ?case using a b by (simp add: listing_Node)
qed

lemma insert_tree_eq:
  "\<exists>r. insert_loop (root t) s = Inr r \<and>
       insert_tree t s = Inr \<lparr>root = r, size_tree = (if stored (root t) s then size_tree t else size_tree t + 1)\<rparr>"
proof -
  from insert_loop_total [of "root t" s] obtain r where r: "insert_loop (root t) s = Inr r" by blast
  then show ?thesis by (simp add: insert_tree_def contains_stored)
qed

lemma insert_tree_stored:
  "insert_tree t s = Inr t' \<Longrightarrow> stored (root t') x = (x = s \<or> stored (root t) x)"
proof -
  assume a: "insert_tree t s = Inr t'"
  from insert_tree_eq [of t s] obtain r where r: "insert_loop (root t) s = Inr r"
    "insert_tree t s = Inr \<lparr>root = r, size_tree = (if stored (root t) s then size_tree t else size_tree t + 1)\<rparr>"
    by blast
  with a have "root t' = r" by auto
  with insert_loop_stored [OF r(1), of x] show ?thesis by simp
qed

lemma insert_tree_wf: "insert_tree t s = Inr t' \<Longrightarrow> wf_node (root t) \<Longrightarrow> wf_node (root t')"
proof -
  assume a: "insert_tree t s = Inr t'" and w: "wf_node (root t)"
  from insert_tree_eq [of t s] obtain r where r: "insert_loop (root t) s = Inr r"
    "insert_tree t s = Inr \<lparr>root = r, size_tree = (if stored (root t) s then size_tree t else size_tree t + 1)\<rparr>"
    by blast
  with a have "root t' = r" by auto
  with insert_loop_wf [OF r(1) w] show ?thesis by simp
qed

lemma insert_all_stored:
  "\<exists>t'. insert_all t ss = Inr t' \<and> (\<forall>x. stored (root t') x = (x \<in> set ss \<or> stored (root t) x))
        \<and> (wf_node (root t) \<longrightarrow> wf_node (root t'))"
proof (induction ss arbitrary: t)
  case Nil
  show ?case by simp
next
  case (Cons s ss)
  from insert_tree_eq [of t s] obtain t1 where t1: "insert_tree t s = Inr t1" by blast
  from Cons.IH [of t1] obtain t' where t': "insert_all t1 ss = Inr t'"
    "\<forall>x. stored (root t') x = (x \<in> set ss \<or> stored (root t1) x)"
    "wf_node (root t1) \<longrightarrow> wf_node (root t')" by blast
  have "insert_all t (s # ss) = Inr t'" using t1 t' by simp
  moreover have "\<forall>x. stored (root t') x = (x \<in> set (s # ss) \<or> stored (root t) x)"
    using t'(2) insert_tree_stored [OF t1] by auto
  moreover have "wf_node (root t) \<longrightarrow> wf_node (root t')"
    using t'(3) insert_tree_wf [OF t1] by blast
  ultimately show ?case by blast
qed

lemma PrefixTree_stored:
  "\<exists>t. PrefixTree (Some ss) = Inr t \<and> (\<forall>x. stored (root t) x = (x \<in> set ss)) \<and> wf_node (root t)"
proof -
  let ?e = "\<lparr>root = PrefixTreeNode START_CHARACTER, size_tree = 0\<rparr>"
  from insert_all_stored [of ?e ss] obtain t' where t': "insert_all ?e ss = Inr t'"
    "\<forall>x. stored (root t') x = (x \<in> set ss \<or> stored (root ?e) x)"
    "wf_node (root ?e) \<longrightarrow> wf_node (root t')" by blast
  then show ?thesis by (simp add: PrefixTree_def)
qed

lemma walk_append:
  "walk n (p @ x) = (case walk n p of None \<Rightarrow> None | Some m \<Rightarrow> walk m x)"
  by (induction p arbitrary: n) (simp_all split: option.splits)

lemma walk_wf: "wf_node n \<Longrightarrow> walk n p = Some m \<Longrightarrow> wf_node m"
proof (induction p arbitrary: n)
  case Nil
  then show ?case by simp
next
  case (Cons c cs)
  from Cons.prems(2) obtain child where c: "map_of (children n) c = Some child" "walk child cs = Some m"
    by (auto split: option.splits)
  from c(1) have "(c, child) \<in> set (children n)" by (rule map_of_SomeD)
  with Cons.prems(1) have "wf_node child" by (auto simp add: wf_node_iff [of n])
  then show ?case using c(2) by (rule Cons.IH)
qed

lemma stored_append:
  "stored n (p @ x) = (case walk n p of None \<Rightarrow> False | Some m \<Rightarrow> stored m x)"
  by (simp add: stored_def walk_append split: option.splits)

lemma fold_max_le: "(fold max xs a \<le> (b::nat)) = (a \<le> b \<and> (\<forall>x \<in> set xs. x \<le> b))"
  by (induction xs arbitrary: a) auto

lemma frames_needed_le:
  "(frames_needed n \<le> Suc b) =
     (1 \<le> b \<and> (\<forall>(c, child) \<in> set (children n). frames_needed child \<le> b))"
  by (cases n) (auto simp add: fold_max_le)

lemma frames_needed_ge: "2 \<le> frames_needed n"
proof (cases n)
  case (Node ch tm cs)
  let ?m = "fold max (map (\<lambda>(c, child). frames_needed child) cs) 1"
  have "?m \<le> ?m" by simp
  then have "1 \<le> ?m" unfolding fold_max_le [of _ 1 ?m] by simp
  with Node show ?thesis by simp
qed

lemma fold_result_all:
  assumes "\<And>x acc. x \<in> set xs \<Longrightarrow>
             f x acc = (if ok x then Inr (g x acc) else Inl RecursionError)"
  shows "fold_result f xs acc =
           (if \<forall>x \<in> set xs. ok x then Inr (fold g xs acc) else Inl RecursionError)"
  using assms
proof (induction xs arbitrary: acc)
  case Nil
  show ?case by simp
next
  case (Cons x xs)
  have 1: "f x acc = (if ok x then Inr (g x acc) else Inl RecursionError)"
    by (rule Cons.prems) simp
  have 2: "fold_result f xs a =
             (if \<forall>x \<in> set xs. ok x then Inr (fold g xs a) else Inl RecursionError)" for a
    by (rule Cons.IH) (rule Cons.prems, simp)
  show ?case using 1 2 by simp
qed

lemma fold_concat_map:
  "fold visit (concat (map h xs)) acc = fold (\<lambda>x. fold visit (h x)) xs acc"
  by (induction xs arbitrary: acc) simp_all

lemma traverse_eq:
  "traverse b n p visit acc =
     (if frames_needed n \<le> b then Inr (fold visit (listing n p) acc) else Inl RecursionError)"
proof (induction b arbitrary: n p acc)
  case 0
  from frames_needed_ge [of n] show ?case by simp
next
  case (Suc b)
  show ?case
  proof (cases "b = 0")
    case True
    from frames_needed_ge [of n] True show ?thesis by simp
  next
    case False
    obtain ch tm cs where n: "n = Node ch tm cs" by (cases n)
    let ?f = "\<lambda>(c, child) acc'. traverse b child (p @ [c]) visit acc'"
    let ?ok = "\<lambda>(c, child). frames_needed child \<le> b"
    let ?g = "\<lambda>(c, child). fold visit (listing child (p @ [c]))"
    have a: "fold_result ?f cs a =
               (if \<forall>x \<in> set cs. ?ok x then Inr (fold ?g cs a) else Inl RecursionError)" for a
      by (rule fold_result_all) (auto simp add: Suc.IH)
    have g: "?g = (\<lambda>x. fold visit ((\<lambda>(c, child). listing child (p @ [c])) x))"
      by (auto simp add: fun_eq_iff)
    have b: "fold ?g cs a = fold visit (concat (map (\<lambda>(c, child). listing child (p @ [c])) cs)) a" for a
      unfolding g by (rule fold_concat_map [symmetric])
    have c: "(frames_needed n \<le> Suc b) = (\<forall>x \<in> set cs. ?ok x)"
      using False frames_needed_le [of n b] by (simp add: n del: frames_needed.simps)
    have d: "traverse (Suc b) n p visit acc =
               fold_result ?f cs (if tm then visit p acc else acc)"
      using False by (simp add: n is_terminal_def)
    show ?thesis
    proof (cases "frames_needed n \<le> Suc b")
      case True
      with c have all: "\<forall>x \<in> set cs. ?ok x" by blast
      have "fold_result ?f cs (if tm then visit p acc else acc) =
              Inr (fold ?g cs (if tm then visit p acc else acc))"
        unfolding a using all by (rule if_P)
      also have "\<dots> = Inr (fold visit (listing n p) acc)"
        unfolding b by (simp add: n listing_Node)
      finally have "traverse (Suc b) n p visit acc = Inr (fold visit (listing n p) acc)"
        using d by simp
      with True show ?thesis by (simp del: traverse.simps frames_needed.simps)
    next
      case no: False
      with c have "\<not> (\<forall>x \<in> set cs. ?ok x)" by blast
      then have "fold_result ?f cs (if tm then visit p acc else acc) = Inl RecursionError"
        unfolding a by (rule if_not_P)
      with d have "traverse (Suc b) n p visit acc = Inl RecursionError" by simp
      with no show ?thesis by (simp del: traverse.simps frames_needed.simps)
    qed
  qed
qed

lemma fold_append_list: "fold append_list xs acc = acc @ xs"
  by (induction xs arbitrary: acc) (simp_all add: append_list_def)

lemma traverse_append:
  "traverse b n p append_list [] =
     (if frames_needed n \<le> b then Inr (listing n p) else Inl RecursionError)"
  by (simp add: traverse_eq fold_append_list)

lemma walk_frames: "walk n s = Some m \<Longrightarrow> length s + frames_needed m \<le> frames_needed n"
proof (induction s arbitrary: n)
  case Nil
  then show ?case by simp
next
  case (Cons c cs)
  from Cons.prems obtain child where c: "map_of (children n) c = Some child" "walk child cs = Some m"
    by (auto split: option.splits)
  from c(1) have in_cs: "(c, child) \<in> set (children n)" by (rule map_of_SomeD)
  from frames_needed_ge [of n] obtain k where k: "frames_needed n = Suc k" by (cases "frames_needed n") auto
  have "frames_needed n \<le> Suc k" using k by simp
  then have "\<forall>(c, child) \<in> set (children n). frames_needed child \<le> k"
    unfolding frames_needed_le by simp
  with in_cs have "frames_needed child \<le> k" by auto
  moreover from c(2) have "length cs + frames_needed m \<le> frames_needed child" by (rule Cons.IH)
  ultimately show ?case using k by simp
qed

lemma complete_eq:
  "complete b t p =
     (case walk (root t) p of
        None \<Rightarrow> Inr []
      | Some m \<Rightarrow> if frames_needed m \<le> b then Inr (listing m p) else Inl RecursionError)"
proof -
  from find_node_walk [of t p] obtain m k where
    h: "find_node t p = Inr (m, k)" "k \<le> length p" "walk (root t) (take k p) = Some m"
       "(k = length p) = (walk (root t) p \<noteq> None)" by blast
  show ?thesis
  proof (cases "k = length p")
    case True
    with h show ?thesis by (simp add: complete_def traverse_append)
  next
    case False
    with h show ?thesis by (auto simp add: complete_def)
  qed
qed

lemma strings_eq:
  "strings b t =
     (if frames_needed (root t) \<le> b then Inr (listing (root t) []) else Inl RecursionError)"
  by (simp add: strings_def traverse_append)

lemma strings_complete: "complete b t [] = strings b t"
  by (simp add: complete_eq strings_eq)

lemma no_walk_no_prefix: "walk (root t) p = None \<Longrightarrow> \<not> (prefix p y \<and> stored (root t) y)"
  by (auto simp add: prefix_def stored_append)

lemma listing_members:
  assumes "wf_node (root t)" and "walk (root t) p = Some m"
  shows "distinct (listing m p) \<and> sorted_wrt (\<lambda>a b. \<not> strict_prefix b a) (listing m p)
         \<and> (\<forall>y. (y \<in> set (listing m p)) = (prefix p y \<and> stored (root t) y))"
proof -
  have w: "wf_node m" using assms by (rule walk_wf)
  have "(y \<in> set (listing m p)) = (prefix p y \<and> stored (root t) y)" for y
    using assms(2) by (auto simp add: listing_stored [OF w] prefix_def stored_append)
  then show ?thesis using listing_distinct [OF w] listing_sorted [OF w] by simp
qed

lemma sorted_wrt_before:
  assumes "sorted_wrt (\<lambda>a b. \<not> strict_prefix b a) ys" "a \<in> set ys" "b \<in> set ys" "strict_prefix a b"
  shows "\<exists>i j. i < j \<and> j < length ys \<and> ys ! i = a \<and> ys ! j = b"
proof -
  from assms(2) obtain i where i: "i < length ys" "ys ! i = a" by (auto simp add: in_set_conv_nth)
  from assms(3) obtain j where j: "j < length ys" "ys ! j = b" by (auto simp add: in_set_conv_nth)
  have "i \<noteq> j" using i j assms(4) by auto
  moreover have "\<not> j < i"
  proof
    assume "j < i"
    with assms(1) i(1) have "\<not> strict_prefix (ys ! i) (ys ! j)" by (simp add: sorted_wrt_iff_nth_less)
    with i j assms(4) show False by simp
  qed
  ultimately have "i < j" by simp
  with i j show ?thesis by blast
qed

lemma find_node_loop_st_eq: "find_node_loop_st n d s t = (find_node_loop n d s, t)"
proof (induction s arbitrary: n d)
  case Nil
  show ?case by simp
next
  case (Cons c cs)
  show ?case
  proof (cases "has_child n c")
    case False
    then show ?thesis by (simp add: has_child_st_def)
  next
    case True
    show ?thesis
    proof (cases "get_child n c")
      case (Inl e)
      with True show ?thesis by (simp add: has_child_st_def get_child_st_def)
    next
      case (Inr child)
      with True Cons.IH [of child "d + 1"] show ?thesis
        by (simp add: has_child_st_def get_child_st_def)
    qed
  qed
qed

lemma find_node_st_eq: "find_node_st s t = (find_node t s, t)"
  by (simp add: find_node_st_def find_node_def find_node_loop_st_eq)

lemma contains_st_eq: "contains_st s t = (contains t s, t)"
  by (cases "find_node t s")
     (auto simp add: contains_st_def contains_def find_node_st_eq is_terminal_st_def)

lemma fold_result_st_eq:
  assumes "\<And>x acc. x \<in> set xs \<Longrightarrow> f x (acc, t) = (g x acc, t)"
  shows "fold_result_st f xs (acc, t) = (fold_result g xs acc, t)"
  using assms
proof (induction xs arbitrary: acc)
  case Nil
  show ?case by simp
next
  case (Cons x xs)
  have 1: "f x (acc, t) = (g x acc, t)" by (rule Cons.prems) simp
  have 2: "fold_result_st f xs (a, t) = (fold_result g xs a, t)" for a
    by (rule Cons.IH) (rule Cons.prems, simp)
  show ?case using 1 2 by (cases "g x acc") simp_all
qed

lemma traverse_st_eq: "traverse_st b n p visit (acc, t) = (traverse b n p visit acc, t)"
proof (induction b arbitrary: n p acc)
  case 0
  show ?case by simp
next
  case (Suc b)
  have "fold_result_st (\<lambda>(c, child) st. traverse_st b child (p @ [c]) visit st) (children n) (a, t)
        = (fold_result (\<lambda>(c, child) acc'. traverse b child (p @ [c]) visit acc') (children n) a, t)" for a
    by (rule fold_result_st_eq) (auto simp add: Suc.IH)
  then show ?case by (simp add: is_terminal_st_def)
qed

lemma complete_st_eq: "complete_st b p t = (complete b t p, t)"
  by (cases "find_node t p")
     (auto simp add: complete_st_def complete_def find_node_st_eq traverse_st_eq)

lemma strings_st_eq: "strings_st b t = (strings b t, t)"
  by (simp add: strings_st_def strings_def traverse_st_eq)

lemma deep_tree_built:
  "PrefixTree (Some deep_strings) = Inr deep_tree \<and> wf_node (root deep_tree)
   \<and> (\<forall>x. stored (root deep_tree) x = (x \<in> set deep_strings))"
proof -
  from PrefixTree_stored [of deep_strings] obtain t where
    t: "PrefixTree (Some deep_strings) = Inr t" "\<forall>x. stored (root t) x = (x \<in> set deep_strings)"
       "wf_node (root t)" by blast
  from t(1) have "deep_tree = t" by (simp add: deep_tree_def)
  with t show ?thesis by simp
qed

lemma deep_tree_frames: "recursion_limit < frames_needed (root deep_tree)"
proof -
  from deep_tree_built have "stored (root deep_tree) (replicate 1000 (CHR ''a''))"
    by (simp add: deep_strings_def)
  then obtain m where m: "walk (root deep_tree) (replicate 1000 (CHR ''a'')) = Some m"
    by (auto simp add: stored_def split: option.splits)
  from walk_frames [OF m] frames_needed_ge [of m] show ?thesis
    by (simp add: recursion_limit_def)
qed

text \<open>With any number of frames up to the recursion limit the traversal of this tree is refused.\<close>

lemma deep_tree_raises:
  "b \<le> recursion_limit \<Longrightarrow>
     strings b deep_tree = Inl RecursionError \<and> complete b deep_tree [] = Inl RecursionError"
  using deep_tree_frames by (simp add: strings_eq complete_eq)

lemma is_empty_st_eq: "is_empty_st t = (is_empty t, t)"
  by (simp add: is_empty_st_def is_empty_def)


section \<open>The claims\<close>

text \<open>
  Claim C1. For every tree and every string \<open>s\<close>, \<^verbatim>\<open>insert(s)\<close> returns, and afterwards
  \<^verbatim>\<open>contains(s)\<close> is true; the size is unchanged when \<^verbatim>\<open>contains(s)\<close> was true before
  the call and larger by exactly one when it was false.
\<close>

theorem insert_contains_size:
  "\<exists>t'. insert_tree t s = Inr t' \<and> contains t' s = Inr True \<and>
        (\<exists>b. contains t s = Inr b \<and> size_tree t' = (if b then size_tree t else size_tree t + 1))"
proof -
  from insert_tree_eq [of t s] obtain r where r: "insert_loop (root t) s = Inr r"
    "insert_tree t s = Inr \<lparr>root = r, size_tree = (if stored (root t) s then size_tree t else size_tree t + 1)\<rparr>"
    by blast
  let ?t' = "\<lparr>root = r, size_tree = (if stored (root t) s then size_tree t else size_tree t + 1)\<rparr>"
  have "contains ?t' s = Inr True"
    using insert_loop_stored [OF r(1), of s] by (simp add: contains_stored)
  moreover have "contains t s = Inr (stored (root t) s)" by (rule contains_stored)
  ultimately show ?thesis using r(2) by simp
qed

text \<open>
  Claim C2. \<^verbatim>\<open>contains(s)\<close> is true exactly when the full path for \<open>s\<close> exists from the
  root and the node it reaches is terminal. A tree built from a list of strings contains
  exactly the strings of the list, so a strict prefix of a stored string that was never
  inserted is not contained: after inserting ABC, ABD, A and XYZ, \<^verbatim>\<open>contains("AB")\<close> is
  false and \<^verbatim>\<open>contains("A")\<close> is true.
\<close>

theorem contains_iff_terminal_path:
  "contains t s = Inr (case walk (root t) s of None \<Rightarrow> False | Some n \<Rightarrow> is_terminal n)
   \<and> (\<exists>t'. PrefixTree (Some ss) = Inr t' \<and> (\<forall>x. contains t' x = Inr (x \<in> set ss)))
   \<and> (\<exists>t'. PrefixTree (Some [''ABC'', ''ABD'', ''A'', ''XYZ'']) = Inr t'
          \<and> contains t' ''AB'' = Inr False \<and> contains t' ''A'' = Inr True)"
proof -
  have 1: "contains t s = Inr (case walk (root t) s of None \<Rightarrow> False | Some n \<Rightarrow> is_terminal n)"
    by (simp add: contains_stored stored_def is_terminal_def split: option.splits)
  have 2: "\<exists>t'. PrefixTree (Some ss) = Inr t' \<and> (\<forall>x. contains t' x = Inr (x \<in> set ss))" for ss
    using PrefixTree_stored [of ss] by (auto simp add: contains_stored)
  from 2 [of "[''ABC'', ''ABD'', ''A'', ''XYZ'']"] obtain t' where
    t': "PrefixTree (Some [''ABC'', ''ABD'', ''A'', ''XYZ'']) = Inr t'"
    "\<forall>x. contains t' x = Inr (x \<in> set [''ABC'', ''ABD'', ''A'', ''XYZ''])" by blast
  have "contains t' ''AB'' = Inr False" "contains t' ''A'' = Inr True"
    using t'(2) by simp_all
  with t'(1) have 3: "\<exists>t'. PrefixTree (Some [''ABC'', ''ABD'', ''A'', ''XYZ'']) = Inr t'
          \<and> contains t' ''AB'' = Inr False \<and> contains t' ''A'' = Inr True" by blast
  from 1 2 3 show ?thesis by blast
qed

text \<open>
  Claim C3. For every prefix \<open>p\<close>, \<^verbatim>\<open>complete(p)\<close> returns a list without duplicates whose
  elements are exactly the stored strings that start with \<open>p\<close>, as long as the traversal
  below the node the prefix reaches fits into the frames the interpreter has left; a
  traversal that does not fit raises \<^verbatim>\<open>RecursionError\<close>. When the depth matched by
  \<^verbatim>\<open>_find_node(p)\<close> is less than the length of \<open>p\<close>, the list is empty.
\<close>

theorem complete_exact:
  assumes "wf_node (root t)"
  shows "\<exists>n d. find_node t p = Inr (n, d)
           \<and> (d < length p \<longrightarrow> complete b t p = Inr [])
           \<and> (d = length p \<and> b < frames_needed n \<longrightarrow> complete b t p = Inl RecursionError)
           \<and> (d < length p \<or> frames_needed n \<le> b \<longrightarrow>
                (\<exists>ys. complete b t p = Inr ys \<and> distinct ys
                   \<and> (\<forall>y. (y \<in> set ys) = (prefix p y \<and> contains t y = Inr True))))"
proof -
  from find_node_walk [of t p] obtain n d where
    h: "find_node t p = Inr (n, d)" "d \<le> length p" "walk (root t) (take d p) = Some n"
       "(d = length p) = (walk (root t) p \<noteq> None)" by blast
  show ?thesis
  proof (cases "d = length p")
    case True
    with h(3) have w: "walk (root t) p = Some n" by simp
    from listing_members [OF assms w] have
      l: "distinct (listing n p)"
         "\<forall>y. (y \<in> set (listing n p)) = (prefix p y \<and> stored (root t) y)" by simp_all
    have c: "complete b t p = (if frames_needed n \<le> b then Inr (listing n p) else Inl RecursionError)"
      using w by (simp add: complete_eq)
    have 1: "d < length p \<longrightarrow> complete b t p = Inr []" using True by simp
    have 2: "d = length p \<and> b < frames_needed n \<longrightarrow> complete b t p = Inl RecursionError"
      using c by simp
    have 3: "d < length p \<or> frames_needed n \<le> b \<longrightarrow>
                (\<exists>ys. complete b t p = Inr ys \<and> distinct ys
                   \<and> (\<forall>y. (y \<in> set ys) = (prefix p y \<and> contains t y = Inr True)))"
      using True c l by (simp add: contains_stored)
    from h(1) 1 2 3 show ?thesis by blast
  next
    case False
    with h have w: "walk (root t) p = None" and less: "d < length p" by simp_all
    have c: "complete b t p = Inr []" using w by (simp add: complete_eq)
    have "\<forall>y. (y \<in> set []) = (prefix p y \<and> contains t y = Inr True)"
      using no_walk_no_prefix [OF w] by (simp add: contains_stored)
    with c have 3: "\<exists>ys. complete b t p = Inr ys \<and> distinct ys
                   \<and> (\<forall>y. (y \<in> set ys) = (prefix p y \<and> contains t y = Inr True))" by simp
    from h(1) c less 3 show ?thesis by auto
  qed
qed

theorem complete_exact_witness:
  "wf_node (root sample_tree)
   \<and> PrefixTree (Some sample_strings) = Inr sample_tree
   \<and> find_node sample_tree ''AB'' = Inr (Node ''B'' False [(CHR ''C'', Node ''C'' True []), (CHR ''D'', Node ''D'' True [])], 2)
   \<and> frames_needed (Node ''B'' False [(CHR ''C'', Node ''C'' True []), (CHR ''D'', Node ''D'' True [])]) \<le> recursion_limit
   \<and> complete recursion_limit sample_tree ''AB'' = Inr [''ABC'', ''ABD'']
   \<and> (\<forall>y. (y \<in> set [''ABC'', ''ABD'']) = (prefix ''AB'' y \<and> contains sample_tree y = Inr True))
   \<and> find_node sample_tree ''Q'' = Inr (root sample_tree, 0)
   \<and> complete recursion_limit sample_tree ''Q'' = Inr []"
proof -
  have w: "wf_node (root sample_tree)" by code_simp
  have p: "PrefixTree (Some sample_strings) = Inr sample_tree" by code_simp
  have f: "find_node sample_tree ''AB'' = Inr (Node ''B'' False [(CHR ''C'', Node ''C'' True []), (CHR ''D'', Node ''D'' True [])], 2)"
    by code_simp
  have r: "frames_needed (Node ''B'' False [(CHR ''C'', Node ''C'' True []), (CHR ''D'', Node ''D'' True [])]) \<le> recursion_limit"
    by code_simp
  have c: "complete recursion_limit sample_tree ''AB'' = Inr [''ABC'', ''ABD'']"
    unfolding complete_eq by code_simp
  have q: "find_node sample_tree ''Q'' = Inr (root sample_tree, 0)" by code_simp
  from complete_exact [OF w, of "''AB''" recursion_limit] f r c
  have m: "\<forall>y. (y \<in> set [''ABC'', ''ABD'']) = (prefix ''AB'' y \<and> contains sample_tree y = Inr True)"
    by auto
  from complete_exact [OF w, of "''Q''" recursion_limit] q
  have e: "complete recursion_limit sample_tree ''Q'' = Inr []" by auto
  from w p f r c m q e show ?thesis by blast
qed

text \<open>
  Without the proviso the claim fails: the tree built from the empty string and a string of
  1000 characters contains both, and \<^verbatim>\<open>complete('')\<close> on it raises \<^verbatim>\<open>RecursionError\<close> even
  with the whole recursion limit at its disposal.
\<close>

theorem complete_exact_counterexample:
  "PrefixTree (Some deep_strings) = Inr deep_tree
   \<and> wf_node (root deep_tree)
   \<and> contains deep_tree (replicate 1000 (CHR ''a'')) = Inr True
   \<and> prefix [] (replicate 1000 (CHR ''a''))
   \<and> complete recursion_limit deep_tree [] = Inl RecursionError"
proof -
  have "contains deep_tree (replicate 1000 (CHR ''a'')) = Inr True"
    using deep_tree_built by (simp add: contains_stored deep_strings_def)
  moreover have "complete recursion_limit deep_tree [] = Inl RecursionError"
    using deep_tree_frames by (simp add: complete_eq)
  ultimately show ?thesis using deep_tree_built by simp
qed

text \<open>
  Claim C4. \<^verbatim>\<open>_find_node(s)\<close> returns a node and a depth; the depth is at most the length of
  \<open>s\<close>, the node is the one reached by the first \<open>depth\<close> characters, and the depth equals
  the length of \<open>s\<close> exactly when every character of \<open>s\<close> had a matching child edge. For
  the empty string the result is the root and depth 0.
\<close>

theorem find_node_depth:
  "(\<exists>n d. find_node t s = Inr (n, d) \<and> d \<le> length s \<and> walk (root t) (take d s) = Some n
         \<and> (d = length s) = (walk (root t) s \<noteq> None))
   \<and> find_node t [] = Inr (root t, 0)"
  using find_node_walk [of t s] by (simp add: find_node_def)

text \<open>
  Claim C5. \<^verbatim>\<open>strings()\<close> does what \<^verbatim>\<open>complete('')\<close> does: both return the same list or both
  raise \<^verbatim>\<open>RecursionError\<close>. They return when the traversal from the root fits into the
  frames the interpreter has left, and the list then holds every stored string exactly once.
\<close>

theorem strings_is_complete_empty:
  assumes "wf_node (root t)"
  shows "complete b t [] = strings b t
         \<and> (b < frames_needed (root t) \<longrightarrow> strings b t = Inl RecursionError)
         \<and> (frames_needed (root t) \<le> b \<longrightarrow>
              (\<exists>ys. strings b t = Inr ys \<and> distinct ys
                 \<and> (\<forall>y. (y \<in> set ys) = (contains t y = Inr True))))"
proof -
  have w: "walk (root t) [] = Some (root t)" by simp
  from listing_members [OF assms w] have
    l: "distinct (listing (root t) [])"
       "\<forall>y. (y \<in> set (listing (root t) [])) = stored (root t) y" by simp_all
  have 1: "complete b t [] = strings b t" by (rule strings_complete)
  have 2: "b < frames_needed (root t) \<longrightarrow> strings b t = Inl RecursionError"
    by (simp add: strings_eq)
  have 3: "frames_needed (root t) \<le> b \<longrightarrow>
              (\<exists>ys. strings b t = Inr ys \<and> distinct ys
                 \<and> (\<forall>y. (y \<in> set ys) = (contains t y = Inr True)))"
    using l by (simp add: strings_eq contains_stored)
  from 1 2 3 show ?thesis by blast
qed

theorem strings_is_complete_empty_witness:
  "wf_node (root sample_tree)
   \<and> frames_needed (root sample_tree) \<le> recursion_limit
   \<and> strings recursion_limit sample_tree = Inr [''A'', ''ABC'', ''ABD'', ''XYZ'']
   \<and> complete recursion_limit sample_tree [] = strings recursion_limit sample_tree
   \<and> distinct [''A'', ''ABC'', ''ABD'', ''XYZ'']
   \<and> (\<forall>y. (y \<in> set [''A'', ''ABC'', ''ABD'', ''XYZ'']) = (contains sample_tree y = Inr True))"
proof -
  have w: "wf_node (root sample_tree)" by code_simp
  have r: "frames_needed (root sample_tree) \<le> recursion_limit" by code_simp
  have s: "strings recursion_limit sample_tree = Inr [''A'', ''ABC'', ''ABD'', ''XYZ'']"
    unfolding strings_eq by code_simp
  from strings_is_complete_empty [OF w, of recursion_limit] r s
  have "complete recursion_limit sample_tree [] = strings recursion_limit sample_tree"
    and "distinct [''A'', ''ABC'', ''ABD'', ''XYZ'']"
    and "\<forall>y. (y \<in> set [''A'', ''ABC'', ''ABD'', ''XYZ'']) = (contains sample_tree y = Inr True)"
    by auto
  with w r s show ?thesis by blast
qed

text \<open>
  Without the proviso the claim fails: on the tree built from the empty string and a string
  of 1000 characters \<^verbatim>\<open>strings()\<close> and \<^verbatim>\<open>complete('')\<close> raise \<^verbatim>\<open>RecursionError\<close> and list
  nothing, though the empty string is stored.
\<close>

theorem strings_is_complete_empty_counterexample:
  "PrefixTree (Some deep_strings) = Inr deep_tree
   \<and> wf_node (root deep_tree)
   \<and> contains deep_tree [] = Inr True
   \<and> strings recursion_limit deep_tree = Inl RecursionError
   \<and> complete recursion_limit deep_tree [] = Inl RecursionError"
proof -
  have "contains deep_tree [] = Inr True"
    using deep_tree_built by (simp add: contains_stored deep_strings_def del: stored_Nil)
  moreover have "strings recursion_limit deep_tree = Inl RecursionError"
    using deep_tree_frames by (simp add: strings_eq)
  moreover have "complete recursion_limit deep_tree [] = Inl RecursionError"
    using deep_tree_frames by (simp add: complete_eq)
  ultimately show ?thesis using deep_tree_built by simp
qed

text \<open>
  Claim C6. Insertion is idempotent: inserting \<open>s\<close> a second time right after the first
  leaves \<^verbatim>\<open>contains\<close>, \<^verbatim>\<open>complete\<close>, \<^verbatim>\<open>strings\<close> and the size as they were after the
  first insertion (the tree is the same tree).
\<close>

theorem insert_idempotent:
  "\<exists>t1 t2. insert_tree t s = Inr t1 \<and> insert_tree t1 s = Inr t2
     \<and> (\<forall>x. contains t2 x = contains t1 x) \<and> (\<forall>b p. complete b t2 p = complete b t1 p)
     \<and> (\<forall>b. strings b t2 = strings b t1) \<and> size_tree t2 = size_tree t1 \<and> t2 = t1"
proof -
  from insert_tree_eq [of t s] obtain r where r: "insert_loop (root t) s = Inr r"
    "insert_tree t s = Inr \<lparr>root = r, size_tree = (if stored (root t) s then size_tree t else size_tree t + 1)\<rparr>"
    by blast
  let ?t1 = "\<lparr>root = r, size_tree = (if stored (root t) s then size_tree t else size_tree t + 1)\<rparr>"
  have st: "stored r s" using insert_loop_stored [OF r(1), of s] by simp
  have "insert_loop (root ?t1) s = Inr r" using insert_loop_again [OF r(1)] by simp
  then have "insert_tree ?t1 s = Inr ?t1"
    using st by (simp add: insert_tree_def contains_stored)
  with r(2) show ?thesis by simp
qed

text \<open>
  Claim C7. The root of a fresh tree is not terminal; the root of a tree built from a list of
  strings, and of a tree after any sequence of insertions, is terminal exactly when the empty
  string was among the strings inserted (or the root was terminal before); a single insertion
  changes the flag of the root only when the string is empty, and inserting the empty string
  makes the root terminal and \<^verbatim>\<open>contains('')\<close> true. The query methods return the tree
  as they found it, so they keep the flag too.
\<close>

theorem root_terminal_iff_empty_inserted:
  "(\<exists>t0. PrefixTree None = Inr t0 \<and> \<not> is_terminal (root t0) \<and> contains t0 [] = Inr False)
   \<and> (\<exists>t'. PrefixTree (Some ss) = Inr t' \<and> is_terminal (root t') = ([] \<in> set ss))
   \<and> (\<exists>t'. insert_all t ss = Inr t' \<and> is_terminal (root t') = ([] \<in> set ss \<or> is_terminal (root t)))
   \<and> (\<exists>t'. insert_tree t s = Inr t' \<and> is_terminal (root t') = (s = [] \<or> is_terminal (root t)))
   \<and> (\<exists>t'. insert_tree t [] = Inr t' \<and> is_terminal (root t') \<and> contains t' [] = Inr True)
   \<and> is_terminal (root (snd (contains_st s t))) = is_terminal (root t)
   \<and> is_terminal (root (snd (complete_st b s t))) = is_terminal (root t)
   \<and> is_terminal (root (snd (strings_st b t))) = is_terminal (root t)
   \<and> is_terminal (root (snd (is_empty_st t))) = is_terminal (root t)"
proof -
  have 1: "\<exists>t0. PrefixTree None = Inr t0 \<and> \<not> is_terminal (root t0) \<and> contains t0 [] = Inr False"
    by (simp add: PrefixTree_def PrefixTreeNode_def is_terminal_def contains_stored)
  have 2: "\<exists>t'. PrefixTree (Some ss) = Inr t' \<and> is_terminal (root t') = ([] \<in> set ss)"
  proof -
    from PrefixTree_stored [of ss] obtain t' where t': "PrefixTree (Some ss) = Inr t'"
      "\<forall>x. stored (root t') x = (x \<in> set ss)" by blast
    from t'(2) have "stored (root t') [] = ([] \<in> set ss)" by (rule spec)
    with t'(1) show ?thesis by (simp add: is_terminal_def)
  qed
  have 3: "\<exists>t'. insert_all t ss = Inr t' \<and> is_terminal (root t') = ([] \<in> set ss \<or> is_terminal (root t))"
  proof -
    from insert_all_stored [of t ss] obtain t' where t': "insert_all t ss = Inr t'"
      "\<forall>x. stored (root t') x = (x \<in> set ss \<or> stored (root t) x)" by blast
    from t'(2) have "stored (root t') [] = ([] \<in> set ss \<or> stored (root t) [])" by (rule spec)
    with t'(1) show ?thesis by (simp add: is_terminal_def)
  qed
  have 4: "\<exists>t'. insert_tree t s = Inr t' \<and> is_terminal (root t') = (s = [] \<or> is_terminal (root t))" for s
  proof -
    from insert_tree_eq [of t s] obtain t' where t': "insert_tree t s = Inr t'" by blast
    from insert_tree_stored [OF t', of "[]"] have "is_terminal (root t') = (s = [] \<or> is_terminal (root t))"
      by (auto simp add: is_terminal_def)
    with t' show ?thesis by blast
  qed
  have 5: "\<exists>t'. insert_tree t [] = Inr t' \<and> is_terminal (root t') \<and> contains t' [] = Inr True"
    using 4 [of "[]"] by (auto simp add: contains_stored is_terminal_def)
  have 6: "is_terminal (root (snd (contains_st s t))) = is_terminal (root t)"
    "is_terminal (root (snd (complete_st b s t))) = is_terminal (root t)"
    "is_terminal (root (snd (strings_st b t))) = is_terminal (root t)"
    "is_terminal (root (snd (is_empty_st t))) = is_terminal (root t)"
    by (simp_all add: contains_st_eq complete_st_eq strings_st_eq is_empty_st_eq)
  from 1 2 3 4 [of s] 5 6 show ?thesis by blast
qed

text \<open>
  Claim C8. \<^verbatim>\<open>get_child(c)\<close> succeeds exactly on a node where \<^verbatim>\<open>has_child(c)\<close> is true, and
  \<^verbatim>\<open>insert\<close>, \<^verbatim>\<open>_find_node\<close>, \<^verbatim>\<open>contains\<close>, \<^verbatim>\<open>complete\<close> and the constructor call it
  only under that guard: for every tree and every string \<^verbatim>\<open>insert\<close>, \<^verbatim>\<open>_find_node\<close>,
  \<^verbatim>\<open>contains\<close> and the constructor return a value, and \<^verbatim>\<open>complete\<close> and \<^verbatim>\<open>strings\<close>
  return a list or raise \<^verbatim>\<open>RecursionError\<close>; none of them ends in the lookup failure.
\<close>

theorem get_child_guarded:
  "(\<exists>t'. insert_tree t s = Inr t') \<and> (\<exists>r. find_node t s = Inr r) \<and> (\<exists>r. contains t s = Inr r)
   \<and> ((\<exists>ys. complete b t s = Inr ys) \<or> complete b t s = Inl RecursionError)
   \<and> ((\<exists>ys. strings b t = Inr ys) \<or> strings b t = Inl RecursionError)
   \<and> (\<exists>t'. PrefixTree ss = Inr t')
   \<and> has_child n c = (\<exists>child. get_child n c = Inr child)"
proof -
  have 1: "\<exists>t'. insert_tree t s = Inr t'" using insert_tree_eq [of t s] by blast
  have 2: "\<exists>r. find_node t s = Inr r" using find_node_walk [of t s] by blast
  have 3: "\<exists>r. contains t s = Inr r" by (simp add: contains_stored)
  have 4: "(\<exists>ys. complete b t s = Inr ys) \<or> complete b t s = Inl RecursionError"
    by (simp add: complete_eq split: option.splits)
  have 5: "(\<exists>ys. strings b t = Inr ys) \<or> strings b t = Inl RecursionError"
    by (simp add: strings_eq)
  have 6: "\<exists>t'. PrefixTree ss = Inr t'"
  proof (cases ss)
    case None
    then show ?thesis by (simp add: PrefixTree_def)
  next
    case (Some xs)
    then show ?thesis using PrefixTree_stored [of xs] by blast
  qed
  have 7: "has_child n c = (\<exists>child. get_child n c = Inr child)"
    by (auto simp add: has_child_def get_child_def split: option.splits)
  from 1 2 3 4 5 6 7 show ?thesis by blast
qed

text \<open>
  Claim C9. In the list \<^verbatim>\<open>complete(p)\<close> returns, and in the list \<^verbatim>\<open>strings()\<close> returns, every
  stored string stands before every stored proper extension of it, and a stored \<open>p\<close> is the
  first element of \<^verbatim>\<open>complete(p)\<close>. Both return a list when the traversal from the root
  fits into the frames the interpreter has left; \<^verbatim>\<open>strings()\<close> raises \<^verbatim>\<open>RecursionError\<close>
  when it does not.
\<close>

theorem complete_prefix_order:
  assumes "wf_node (root t)"
  shows "(\<forall>ys. complete b t p = Inr ys \<longrightarrow>
            (\<forall>x y. prefix p x \<and> contains t x = Inr True \<and> contains t y = Inr True \<and> strict_prefix x y
                 \<longrightarrow> (\<exists>i j. i < j \<and> j < length ys \<and> ys ! i = x \<and> ys ! j = y))
            \<and> (contains t p = Inr True \<longrightarrow> ys \<noteq> [] \<and> hd ys = p))
         \<and> (\<forall>ys. strings b t = Inr ys \<longrightarrow>
            (\<forall>x y. contains t x = Inr True \<and> contains t y = Inr True \<and> strict_prefix x y
                 \<longrightarrow> (\<exists>i j. i < j \<and> j < length ys \<and> ys ! i = x \<and> ys ! j = y)))
         \<and> (frames_needed (root t) \<le> b \<longrightarrow>
              (\<exists>ys. complete b t p = Inr ys) \<and> (\<exists>ys. strings b t = Inr ys))
         \<and> (b < frames_needed (root t) \<longrightarrow> strings b t = Inl RecursionError)"
proof -
  have 1: "(\<forall>x y. prefix p x \<and> contains t x = Inr True \<and> contains t y = Inr True \<and> strict_prefix x y
                 \<longrightarrow> (\<exists>i j. i < j \<and> j < length ys \<and> ys ! i = x \<and> ys ! j = y))
            \<and> (contains t p = Inr True \<longrightarrow> ys \<noteq> [] \<and> hd ys = p)"
    if c: "complete b t p = Inr ys" for ys
  proof (cases "walk (root t) p")
    case None
    have "\<not> (prefix p x \<and> contains t x = Inr True)" for x
      using no_walk_no_prefix [OF None, of x] by (simp add: contains_stored)
    then show ?thesis by blast
  next
    case (Some m)
    with c have ys: "ys = listing m p"
      by (simp add: complete_eq split: if_splits)
    from listing_members [OF assms Some] ys have
      l: "sorted_wrt (\<lambda>a b. \<not> strict_prefix b a) ys"
         "\<forall>y. (y \<in> set ys) = (prefix p y \<and> stored (root t) y)" by simp_all
    have a: "\<exists>i j. i < j \<and> j < length ys \<and> ys ! i = x \<and> ys ! j = y"
      if h: "prefix p x \<and> contains t x = Inr True \<and> contains t y = Inr True \<and> strict_prefix x y"
      for x y
    proof -
      from h have "prefix p y" by (meson prefix_order.order_trans prefix_order.less_imp_le)
      with h l(2) have "x \<in> set ys" "y \<in> set ys" by (simp_all add: contains_stored)
      with l(1) h show ?thesis using sorted_wrt_before by blast
    qed
    have b: "ys \<noteq> [] \<and> hd ys = p" if h: "contains t p = Inr True"
    proof -
      from h Some have "terminal m" by (simp add: contains_stored stored_def)
      with ys show ?thesis by (cases m) (simp add: listing_Node)
    qed
    from a b show ?thesis by blast
  qed
  have 2: "\<forall>x y. contains t x = Inr True \<and> contains t y = Inr True \<and> strict_prefix x y
                 \<longrightarrow> (\<exists>i j. i < j \<and> j < length ys \<and> ys ! i = x \<and> ys ! j = y)"
    if s: "strings b t = Inr ys" for ys
  proof -
    have w: "walk (root t) [] = Some (root t)" by simp
    from s have ys: "ys = listing (root t) []" by (simp add: strings_eq split: if_splits)
    from listing_members [OF assms w] ys have
      l: "sorted_wrt (\<lambda>a b. \<not> strict_prefix b a) ys"
         "\<forall>y. (y \<in> set ys) = stored (root t) y" by simp_all
    have "\<exists>i j. i < j \<and> j < length ys \<and> ys ! i = x \<and> ys ! j = y"
      if h: "contains t x = Inr True \<and> contains t y = Inr True \<and> strict_prefix x y" for x y
    proof -
      from h l(2) have "x \<in> set ys" "y \<in> set ys" by (simp_all add: contains_stored)
      with l(1) h show ?thesis using sorted_wrt_before by blast
    qed
    then show ?thesis by blast
  qed
  have 3: "(\<exists>ys. complete b t p = Inr ys) \<and> (\<exists>ys. strings b t = Inr ys)"
    if f: "frames_needed (root t) \<le> b"
  proof -
    have "\<exists>ys. complete b t p = Inr ys"
    proof (cases "walk (root t) p")
      case None
      then show ?thesis by (simp add: complete_eq)
    next
      case (Some m)
      from walk_frames [OF Some] f have "frames_needed m \<le> b" by simp
      with Some show ?thesis by (simp add: complete_eq)
    qed
    moreover have "\<exists>ys. strings b t = Inr ys" using f by (simp add: strings_eq)
    ultimately show ?thesis by blast
  qed
  have 4: "b < frames_needed (root t) \<longrightarrow> strings b t = Inl RecursionError"
    by (simp add: strings_eq)
  from 1 2 3 4 show ?thesis by blast
qed

theorem complete_prefix_order_witness:
  "wf_node (root sample_tree)
   \<and> frames_needed (root sample_tree) \<le> recursion_limit
   \<and> contains sample_tree ''A'' = Inr True \<and> contains sample_tree ''ABC'' = Inr True
   \<and> strict_prefix ''A'' ''ABC''
   \<and> complete recursion_limit sample_tree ''A'' = Inr [''A'', ''ABC'', ''ABD'']
   \<and> (\<exists>i j. i < j \<and> j < length [''A'', ''ABC'', ''ABD'']
          \<and> [''A'', ''ABC'', ''ABD''] ! i = ''A'' \<and> [''A'', ''ABC'', ''ABD''] ! j = ''ABC'')
   \<and> hd [''A'', ''ABC'', ''ABD''] = ''A''"
proof -
  have w: "wf_node (root sample_tree)" by code_simp
  have r: "frames_needed (root sample_tree) \<le> recursion_limit" by code_simp
  have a: "contains sample_tree ''A'' = Inr True" "contains sample_tree ''ABC'' = Inr True"
    by code_simp+
  have s: "strict_prefix ''A'' ''ABC''" by (simp add: strict_prefix_def)
  have c: "complete recursion_limit sample_tree ''A'' = Inr [''A'', ''ABC'', ''ABD'']"
    unfolding complete_eq by code_simp
  from complete_prefix_order [OF w, of recursion_limit "''A''"] c
  have o: "\<forall>x y. prefix ''A'' x \<and> contains sample_tree x = Inr True
             \<and> contains sample_tree y = Inr True \<and> strict_prefix x y
             \<longrightarrow> (\<exists>i j. i < j \<and> j < length [''A'', ''ABC'', ''ABD'']
                    \<and> [''A'', ''ABC'', ''ABD''] ! i = x \<and> [''A'', ''ABC'', ''ABD''] ! j = y)"
    and h: "contains sample_tree ''A'' = Inr True \<longrightarrow> hd [''A'', ''ABC'', ''ABD''] = ''A''"
    by auto
  from o a s have "\<exists>i j. i < j \<and> j < length [''A'', ''ABC'', ''ABD'']
          \<and> [''A'', ''ABC'', ''ABD''] ! i = ''A'' \<and> [''A'', ''ABC'', ''ABD''] ! j = ''ABC''"
    by simp
  with w r a s c h show ?thesis by blast
qed

text \<open>
  Without the proviso the claim fails: the tree built from the empty string and a string of
  1000 characters stores the empty string and a proper extension of it, and neither
  \<^verbatim>\<open>complete('')\<close> nor \<^verbatim>\<open>strings()\<close> returns a list in which one could stand before the
  other: both raise \<^verbatim>\<open>RecursionError\<close>.
\<close>

theorem complete_prefix_order_counterexample:
  "PrefixTree (Some deep_strings) = Inr deep_tree
   \<and> wf_node (root deep_tree)
   \<and> contains deep_tree [] = Inr True
   \<and> contains deep_tree (replicate 1000 (CHR ''a'')) = Inr True
   \<and> strict_prefix [] (replicate 1000 (CHR ''a''))
   \<and> complete recursion_limit deep_tree [] = Inl RecursionError
   \<and> strings recursion_limit deep_tree = Inl RecursionError"
proof -
  have "contains deep_tree [] = Inr True"
    using deep_tree_built by (simp add: contains_stored deep_strings_def del: stored_Nil)
  moreover have "contains deep_tree (replicate 1000 (CHR ''a'')) = Inr True"
    using deep_tree_built by (simp add: contains_stored deep_strings_def)
  moreover have "strict_prefix [] (replicate 1000 (CHR ''a''))" by (simp add: strict_prefix_def)
  moreover have "complete recursion_limit deep_tree [] = Inl RecursionError"
    using deep_tree_frames by (simp add: complete_eq)
  moreover have "strings recursion_limit deep_tree = Inl RecursionError"
    using deep_tree_frames by (simp add: strings_eq)
  ultimately show ?thesis using deep_tree_built by simp
qed

text \<open>
  Claim C10. The query methods \<^verbatim>\<open>contains\<close>, \<^verbatim>\<open>complete\<close>, \<^verbatim>\<open>strings\<close> and \<^verbatim>\<open>is_empty\<close>
  (and the helper \<^verbatim>\<open>_find_node\<close>) leave the tree as it was, nodes and size alike, whether
  they return or raise, and their results are what the functions above compute.
\<close>

theorem queries_leave_tree_unchanged:
  "snd (contains_st s t) = t \<and> snd (complete_st b p t) = t \<and> snd (strings_st b t) = t
   \<and> snd (is_empty_st t) = t \<and> snd (find_node_st s t) = t
   \<and> fst (contains_st s t) = contains t s \<and> fst (complete_st b p t) = complete b t p
   \<and> fst (strings_st b t) = strings b t \<and> fst (is_empty_st t) = is_empty t"
  by (simp add: contains_st_eq complete_st_eq strings_st_eq is_empty_st_eq find_node_st_eq)

end
